theory Spec2Isabelle
  imports Complex_Main "HOL-Library.Word" "HOL-Library.Signed_Division"
begin

unbundle bit_operations_syntax

section \<open>UVC bulk-stream frame reader (\<open>read_frame\<close> of ir_viewer.c)\<close>

type_synonym byte = "8 word"

definition MAX_FRAME_SIZE :: nat where
  "MAX_FRAME_SIZE = 1024 * 1024"

definition BFH_FID :: byte where "BFH_FID = 0x01"
definition BFH_EOF :: byte where "BFH_EOF = 0x02"
definition BFH_ERR :: byte where "BFH_ERR = 0x40"

text \<open>
  One pass through the head of the \<open>while (off < bufsz && g_running)\<close> loop observes
  either that \<open>g_running\<close> has been cleared (\<open>Stopped\<close>) or the outcome of one
  \<open>libusb_bulk_transfer\<close> call: a timeout, an overflow, any other negative status
  (\<open>Failed\<close>), or success with the \<open>xferred\<close> bytes that were placed in \<open>pkt\<close>.
\<close>

datatype xfer = Stopped | Timeout | Overflow | Failed | Xfer "byte list"

text \<open>\<open>memcpy (buf + off, src, n)\<close> on a buffer held as a list.\<close>

definition memcpy :: "byte list \<Rightarrow> nat \<Rightarrow> byte list \<Rightarrow> nat \<Rightarrow> byte list" where
  "memcpy buf off src n = take off buf @ take n src @ drop (off + n) buf"

text \<open>
  The effect of one loop iteration on \<open>(buf, off, fid)\<close>: either the loop goes on
  with a new state, or \<open>read_frame\<close> returns a value (with the buffer as it is then).
\<close>

datatype iter = Continue "byte list" nat int | Return int "byte list"

definition loop_body :: "nat \<Rightarrow> xfer \<Rightarrow> byte list \<Rightarrow> nat \<Rightarrow> int \<Rightarrow> iter" where
  "loop_body bufsz ev buf off fid =
    (case ev of
       Stopped \<Rightarrow> Return (int off) buf
     | Timeout \<Rightarrow> Continue buf off fid
     | Overflow \<Rightarrow> Continue buf off fid
     | Failed \<Rightarrow> Return (- 1) buf
     | Xfer pkt \<Rightarrow>
        (let xferred = length pkt in
         if xferred < 2 then Continue buf off fid
         else
           let hlen = unat (pkt ! 0); bfh = pkt ! 1 in
           if hlen < 2 \<or> hlen > xferred then
             (let n = (if off + xferred \<le> bufsz then xferred else bufsz - off)
              in Continue (memcpy buf off pkt n) (off + n) fid)
           else if bfh AND BFH_ERR \<noteq> 0 then Continue buf 0 (- 1)
           else
             let cfid = uint (bfh AND BFH_FID) in
             if fid \<ge> 0 \<and> cfid \<noteq> fid \<and> off > 0 then Return (int off) buf
             else
               let plen = xferred - hlen;
                   n = (if off + plen \<le> bufsz then plen else bufsz - off);
                   buf' = (if plen > 0 then memcpy buf off (drop hlen pkt) n else buf);
                   off' = (if plen > 0 then off + n else off)
               in if bfh AND BFH_EOF \<noteq> 0 then Return (int off') buf'
                  else Continue buf' off' cfid))"

text \<open>
  The loop over a finite record of what the device delivers. \<open>Done r buf rest\<close>: the call
  returned \<open>r\<close>, leaving \<open>buf\<close> and the deliveries \<open>rest\<close> not yet fetched.
  \<open>Starved\<close>: the record ended while the loop was still waiting for a transfer.
\<close>

datatype rf_result = Done int "byte list" "xfer list" | Starved "byte list" nat int

fun read_loop :: "nat \<Rightarrow> xfer list \<Rightarrow> byte list \<Rightarrow> nat \<Rightarrow> int \<Rightarrow> rf_result" where
  "read_loop bufsz [] buf off fid =
     (if off < bufsz then Starved buf off fid else Done (int off) buf [])"
| "read_loop bufsz (ev # evs) buf off fid =
     (if off < bufsz then
        (case loop_body bufsz ev buf off fid of
           Continue buf' off' fid' \<Rightarrow> read_loop bufsz evs buf' off' fid'
         | Return r buf' \<Rightarrow> Done r buf' evs)
      else Done (int off) buf (ev # evs))"

definition read_frame :: "xfer list \<Rightarrow> byte list \<Rightarrow> nat \<Rightarrow> rf_result" where
  "read_frame evs buf bufsz = read_loop bufsz evs buf 0 (- 1)"

text \<open>The frame a caller sees after \<open>got = read_frame (...)\<close>: the first \<open>got\<close> bytes of the buffer.\<close>

definition frame_of :: "rf_result \<Rightarrow> byte list option" where
  "frame_of r = (case r of
      Done got buf rest \<Rightarrow> (if got \<ge> 0 then Some (take (nat got) buf) else None)
    | Starved buf off fid \<Rightarrow> None)"

definition remaining :: "rf_result \<Rightarrow> xfer list" where
  "remaining r = (case r of Done got buf rest \<Rightarrow> rest | Starved buf off fid \<Rightarrow> [])"

subsection \<open>Vocabulary for statements about packets\<close>

definition valid_header :: "byte list \<Rightarrow> bool" where
  "valid_header pkt \<longleftrightarrow> 2 \<le> unat (pkt ! 0) \<and> unat (pkt ! 0) \<le> length pkt"

definition payload :: "byte list \<Rightarrow> byte list" where
  "payload pkt = drop (unat (pkt ! 0)) pkt"

definition has_flag :: "byte \<Rightarrow> byte list \<Rightarrow> bool" where
  "has_flag f pkt \<longleftrightarrow> (pkt ! 1) AND f \<noteq> 0"

definition fid_bit :: "byte list \<Rightarrow> int" where
  "fid_bit pkt = uint ((pkt ! 1) AND BFH_FID)"

text \<open>
  A stream as in the reassembly scenario: every packet has a valid header, no error bit and
  the identity bit \<open>c\<close>, and the end-of-frame bit is on the last packet only.
\<close>

definition clean_stream :: "int \<Rightarrow> byte list list \<Rightarrow> bool" where
  "clean_stream c pkts \<longleftrightarrow>
     pkts \<noteq> [] \<and>
     (\<forall>p \<in> set pkts. valid_header p \<and> \<not> has_flag BFH_ERR p \<and> fid_bit p = c) \<and>
     (\<forall>p \<in> set (butlast pkts). \<not> has_flag BFH_EOF p) \<and>
     has_flag BFH_EOF (last pkts)"


section \<open>Metadata stripper (\<open>strip_meta_header\<close>)\<close>

text \<open>
  The pair \<open>(pix, pixlen)\<close> is a view into a buffer: the buffer it points into, the
  offset of \<open>pix\<close> in it, and the length. \<open>peek v i\<close> is \<open>(*pix)[i]\<close>.
\<close>

record view =
  base :: "byte list"
  start :: nat
  len :: int

definition peek :: "view \<Rightarrow> nat \<Rightarrow> byte" where
  "peek v i = base v ! (start v + i)"

definition contents :: "view \<Rightarrow> byte list" where
  "contents v = take (nat (len v)) (drop (start v) (base v))"

definition strip_meta_header :: "view \<Rightarrow> view \<times> int" where
  "strip_meta_header v =
     (if len v > 12 \<and> peek v 1 = 0x00 \<and> peek v 2 = 0xe8 \<and> peek v 3 = 0x03
      then (v\<lparr>start := start v + 10, len := len v - 10\<rparr>, 1)
      else (v, 0))"

section \<open>Classifier (\<open>neighbor_diff\<close>)\<close>

text \<open>
  \<open>sum\<close> is an exact integer (a C \<open>long\<close>, at most \<open>255 * 3999\<close>); the quotient
  \<open>(double) sum / (check - 1)\<close> is modelled as the exact quotient in the reals. The values
  the statements below are about (0, 255, and the comparison with 25) are the same in
  double precision: 0 and 255 are exact quotients, and a quotient of integers with a
  divisor below 4000 that exceeds 25 does so by more than \<open>1 / 4000\<close>.
\<close>

definition nd_check :: "int \<Rightarrow> int" where
  "nd_check n = (if n < 4000 then n else 4000)"

definition nd_sum :: "byte list \<Rightarrow> int \<Rightarrow> int" where
  "nd_sum p check =
     fold (\<lambda>i sum. sum + \<bar>uint (p ! i) - uint (p ! (i - 1))\<bar>) [1..<nat check] 0"

definition neighbor_diff :: "byte list \<Rightarrow> int \<Rightarrow> real" where
  "neighbor_diff p n =
     (if n < 2 then 0
      else real_of_int (nd_sum p (nd_check n)) / real_of_int (nd_check n - 1))"

definition is_interleaved :: "byte list \<Rightarrow> int \<Rightarrow> bool" where
  "is_interleaved p n \<longleftrightarrow> neighbor_diff p n > 25.0"

section \<open>Filter pipeline (the per-frame part of the viewer loop in \<open>main\<close>)\<close>

definition size_tolerance :: int where "size_tolerance = 20"
definition avg_tolerance :: int where "avg_tolerance = 40"

text \<open>The size-band filter: \<open>True\<close> when the frame is skipped (\<open>skip_size++; continue\<close>).\<close>

definition size_band_reject :: "bool \<Rightarrow> int \<Rightarrow> int \<Rightarrow> bool" where
  "size_band_reject frame_hold locked_size pixlen \<longleftrightarrow>
     frame_hold \<and> locked_size > 0 \<and>
     (let lo = (locked_size * (100 - size_tolerance)) sdiv 100;
          hi = (locked_size * (100 + size_tolerance)) sdiv 100
      in pixlen < lo \<or> pixlen > hi)"

text \<open>The \<open>SDLK_b\<close> handler.\<close>

definition lower_bright_thresh :: "int \<Rightarrow> int" where
  "lower_bright_thresh bright_thresh = (if bright_thresh > 2 then bright_thresh - 5 else 0)"

record viewer =
  stripe_filter :: bool
  accumulate :: bool
  frame_hold :: bool
  locked_size :: int
  last_avg :: int
  bright_thresh :: int
  accum_buf :: "byte list"
  accum_off :: int
  hold_buf :: "byte list"
  hold_len :: int
  hold_valid :: bool
  frames :: int
  all_frames :: int
  skip_stripe :: int
  skip_size :: int
  skip_dark :: int
  skip_bright :: int

text \<open>
  What one pass of the viewer loop does with the result of \<open>read_frame\<close>. \<open>Shown\<close> carries
  the view, \<open>qavg\<close> and \<open>nd\<close> of a frame that passed every filter. Two outcomes are
  faults of the C program: \<open>DivideByZero\<close> (the integer division \<open>qsum / qn\<close> with
  \<open>qn = 0\<close>) and \<open>Overrun\<close> (a \<open>memcpy\<close> past the end of \<open>accum_buf\<close>).
\<close>

datatype verdict =
    NoFrame | TooSmall | Accumulating | SkipStripe | SkipSize | SkipDark | SkipBright
  | DivideByZero | Overrun | Shown view int real

definition brightness_qn :: "int \<Rightarrow> int" where
  "brightness_qn pixlen = (if pixlen < 4000 then pixlen else 4000)"

definition brightness_qsum :: "view \<Rightarrow> int \<Rightarrow> int" where
  "brightness_qsum pix qn = fold (\<lambda>i qsum. qsum + uint (peek pix i)) [0..<nat qn] 0"

text \<open>Lines from the stripe detection to the display of the frame.\<close>

definition filter_frame :: "viewer \<Rightarrow> view \<Rightarrow> verdict \<times> viewer" where
  "filter_frame st pix =
    (let pixlen = len pix;
         nd = neighbor_diff (drop (start pix) (base pix)) pixlen
     in
     if stripe_filter st \<and> is_interleaved (drop (start pix) (base pix)) pixlen
     then (SkipStripe, st\<lparr>skip_stripe := skip_stripe st + 1\<rparr>)
     else if size_band_reject (frame_hold st) (locked_size st) pixlen
     then (SkipSize, st\<lparr>skip_size := skip_size st + 1\<rparr>)
     else
       let qn = brightness_qn pixlen;
           qsum = brightness_qsum pix qn
       in
       if qn = 0 then (DivideByZero, st)
       else
         let qavg = qsum sdiv qn in
         if qavg < bright_thresh st then (SkipDark, st\<lparr>skip_dark := skip_dark st + 1\<rparr>)
         else if frame_hold st \<and> last_avg st \<ge> 0 \<and> \<bar>qavg - last_avg st\<bar> > avg_tolerance
         then (SkipBright, st\<lparr>skip_bright := skip_bright st + 1\<rparr>)
         else
           let st1 = (if frame_hold st
                      then st\<lparr>hold_buf := memcpy (hold_buf st) 0 (drop (start pix) (base pix)) (nat pixlen),
                              hold_len := pixlen, hold_valid := True, last_avg := qavg,
                              locked_size := (if locked_size st = 0 \<and> frames st = 0
                                              then pixlen else locked_size st)\<rparr>
                      else st)
           in (Shown pix qavg nd, st1\<lparr>frames := frames st1 + 1\<rparr>))"

text \<open>
  The accumulation block, entered when \<open>accumulate && negotiated_frame_size > 0\<close>;
  \<open>(int) negotiated_frame_size\<close> is the two's complement reading of the 32-bit value.
\<close>

definition accumulate_block :: "32 word \<Rightarrow> viewer \<Rightarrow> view \<Rightarrow> verdict \<times> viewer" where
  "accumulate_block negotiated_frame_size st pix =
    (let pixlen = len pix;
         space = sint negotiated_frame_size - accum_off st;
         copy = (if pixlen < space then pixlen else space)
     in
     if copy > 0 \<and> nat (accum_off st) + nat copy > length (accum_buf st) then (Overrun, st)
     else
       let st = (if copy > 0
                 then st\<lparr>accum_buf := memcpy (accum_buf st) (nat (accum_off st))
                                          (drop (start pix) (base pix)) (nat copy),
                         accum_off := accum_off st + copy\<rparr>
                 else st)
       in
       if accum_off st < sint negotiated_frame_size then (Accumulating, st)
       else filter_frame (st\<lparr>accum_off := 0\<rparr>)
              \<lparr>base = accum_buf st, start = 0, len = accum_off st\<rparr>)"

text \<open>
  One pass of the viewer loop from \<open>got = read_frame (dev, fbuf, MAX_FRAME_SIZE)\<close> on.
\<close>

definition process_frame :: "32 word \<Rightarrow> viewer \<Rightarrow> byte list \<Rightarrow> int \<Rightarrow> verdict \<times> viewer" where
  "process_frame negotiated_frame_size st fbuf got =
    (if got \<le> 0 then (NoFrame, st)
     else if got < 100 then (TooSmall, st)
     else
       let st = st\<lparr>all_frames := all_frames st + 1\<rparr>;
           pix = fst (strip_meta_header \<lparr>base = fbuf, start = 0, len = got\<rparr>)
       in
       if accumulate st \<and> negotiated_frame_size > 0
       then accumulate_block negotiated_frame_size st pix
       else filter_frame st pix)"

section \<open>Rendering (\<open>render_frame\<close>)\<close>

datatype display_mode = MODE_RAW | MODE_DEINT_EVEN | MODE_DEINT_ODD | MODE_16BIT_LE

text \<open>
  Memory accesses are checked: a read outside the \<open>srclen\<close> source bytes, a write outside
  the destination, or a division by zero makes the result \<open>None\<close>.
\<close>

definition load :: "byte list \<Rightarrow> nat \<Rightarrow> byte option" where
  "load src i = (if i < length src then Some (src ! i) else None)"

definition store :: "32 word list \<Rightarrow> nat \<Rightarrow> 32 word \<Rightarrow> 32 word list option" where
  "store dst i v = (if i < length dst then Some (dst[i := v]) else None)"

definition memset_black :: "32 word list \<Rightarrow> nat \<Rightarrow> 32 word list option" where
  "memset_black dst npix =
     (if npix \<le> length dst then Some (replicate npix 0 @ drop npix dst) else None)"

definition sample_raw :: "byte list \<Rightarrow> nat \<Rightarrow> int option" where
  "sample_raw src i = map_option uint (load src i)"

definition sample_deint :: "byte list \<Rightarrow> nat \<Rightarrow> nat \<Rightarrow> int option" where
  "sample_deint src first i = map_option uint (load src (first + i * 2))"

definition sample_16le :: "byte list \<Rightarrow> nat \<Rightarrow> int option" where
  "sample_16le src i =
     (case load src (i * 2) of
        None \<Rightarrow> None
      | Some lo \<Rightarrow>
         (case load src (i * 2 + 1) of
            None \<Rightarrow> None
          | Some hi \<Rightarrow> Some (uint ((ucast lo :: 16 word) OR push_bit 8 (ucast hi)))))"

text \<open>The first loop of each mode: the minimum and maximum of the samples.\<close>

definition scan_minmax :: "(nat \<Rightarrow> int option) \<Rightarrow> nat \<Rightarrow> int \<Rightarrow> int \<Rightarrow> (int \<times> int) option" where
  "scan_minmax sample limit mn0 mx0 =
     fold (\<lambda>i acc.
            case acc of
              None \<Rightarrow> None
            | Some (mn, mx) \<Rightarrow>
               (case sample i of
                  None \<Rightarrow> None
                | Some b \<Rightarrow> Some (if b < mn then b else mn, if b > mx then b else mx)))
          [0..<limit] (Some (mn0, mx0))"

definition contrast_range :: "int \<Rightarrow> int \<Rightarrow> int" where
  "contrast_range mn mx = (if mx - mn > 0 then mx - mn else 1)"

definition stretch_px :: "int \<Rightarrow> int \<Rightarrow> int \<Rightarrow> int option" where
  "stretch_px b mn rng = (if rng = 0 then None else Some (((b - mn) * 255) sdiv rng))"

definition clamp_u8 :: "int \<Rightarrow> byte" where
  "clamp_u8 s = (if s < 0 then 0 else if s > 255 then 255 else word_of_int s)"

definition argb :: "byte \<Rightarrow> 32 word" where
  "argb v = 0xFF000000 OR push_bit 16 (ucast v) OR push_bit 8 (ucast v) OR ucast v"

text \<open>The second loop of each mode: stretch each sample and write the pixel.\<close>

definition stretch_loop ::
  "(nat \<Rightarrow> int option) \<Rightarrow> nat \<Rightarrow> int \<Rightarrow> int \<Rightarrow> 32 word list \<Rightarrow> 32 word list option" where
  "stretch_loop sample limit mn rng dst =
     fold (\<lambda>i acc.
            case acc of
              None \<Rightarrow> None
            | Some d \<Rightarrow>
               (case sample i of
                  None \<Rightarrow> None
                | Some b \<Rightarrow>
                   (case stretch_px b mn rng of
                      None \<Rightarrow> None
                    | Some s \<Rightarrow> store d i (argb (clamp_u8 s)))))
          [0..<limit] (Some dst)"

definition decode ::
  "(nat \<Rightarrow> int option) \<Rightarrow> nat \<Rightarrow> int \<Rightarrow> 32 word list \<Rightarrow> 32 word list option" where
  "decode sample limit mn0 dst =
     (case scan_minmax sample limit mn0 0 of
        None \<Rightarrow> None
      | Some (mn, mx) \<Rightarrow> stretch_loop sample limit mn (contrast_range mn mx) dst)"

text \<open>The number of pixels a mode decodes (\<open>limit\<close>, \<open>limit16\<close>).\<close>

definition decode_limit :: "display_mode \<Rightarrow> nat \<Rightarrow> nat \<Rightarrow> nat" where
  "decode_limit mode srclen npix =
     (case mode of
        MODE_RAW \<Rightarrow> (if srclen < npix then srclen else npix)
      | MODE_DEINT_EVEN \<Rightarrow>
          (let halflen = (srclen - 0 + 1) div 2 in if halflen < npix then halflen else npix)
      | MODE_DEINT_ODD \<Rightarrow>
          (let halflen = (srclen - 1 + 1) div 2 in if halflen < npix then halflen else npix)
      | MODE_16BIT_LE \<Rightarrow>
          (let limit16 = srclen div 2 in if limit16 > npix then npix else limit16))"

definition mode_sample :: "display_mode \<Rightarrow> byte list \<Rightarrow> nat \<Rightarrow> int option" where
  "mode_sample mode src =
     (case mode of
        MODE_RAW \<Rightarrow> sample_raw src
      | MODE_DEINT_EVEN \<Rightarrow> sample_deint src 0
      | MODE_DEINT_ODD \<Rightarrow> sample_deint src 1
      | MODE_16BIT_LE \<Rightarrow> sample_16le src)"

definition mode_top :: "display_mode \<Rightarrow> int" where
  "mode_top mode = (case mode of MODE_16BIT_LE \<Rightarrow> 65535 | _ \<Rightarrow> 255)"

text \<open>
  \<open>src\<close> holds the \<open>srclen\<close> source bytes; \<open>width\<close> and \<open>height\<close> are non-negative in every
  call of the program (\<open>dw\<close> is kept in \<open>10..1284\<close>, \<open>dh\<close> is 480).
\<close>

definition render_frame ::
  "byte list \<Rightarrow> 32 word list \<Rightarrow> nat \<Rightarrow> nat \<Rightarrow> display_mode \<Rightarrow> 32 word list option" where
  "render_frame src dst width height mode =
     (let srclen = length src; npix = width * height in
      case memset_black dst npix of
        None \<Rightarrow> None
      | Some d \<Rightarrow>
         if srclen < 2 then Some d
         else decode (mode_sample mode src) (decode_limit mode srclen npix) (mode_top mode) d)"

text \<open>The contrast range a call computes (the \<open>range\<close> and \<open>range16\<close> variables).\<close>

definition render_range :: "byte list \<Rightarrow> nat \<Rightarrow> nat \<Rightarrow> display_mode \<Rightarrow> int option" where
  "render_range src width height mode =
     map_option (\<lambda>(mn, mx). contrast_range mn mx)
       (scan_minmax (mode_sample mode src) (decode_limit mode (length src) (width * height))
          (mode_top mode) 0)"


text \<open>
  The viewer's state when the loop starts (the declarations before the loop, with the
  three 1 MiB buffers as \<open>calloc\<close> returns them), and the \<open>SDLK_a\<close> handler.
\<close>

definition initial_viewer :: viewer where
  "initial_viewer =
     \<lparr>stripe_filter = True, accumulate = False, frame_hold = True, locked_size = 0,
      last_avg = - 1, bright_thresh = 15,
      accum_buf = replicate MAX_FRAME_SIZE 0, accum_off = 0,
      hold_buf = replicate MAX_FRAME_SIZE 0, hold_len = 0, hold_valid = False,
      frames = 0, all_frames = 0,
      skip_stripe = 0, skip_size = 0, skip_dark = 0, skip_bright = 0\<rparr>"

definition key_a :: "viewer \<Rightarrow> viewer" where
  "key_a st = st\<lparr>accumulate := \<not> accumulate st, accum_off := 0\<rparr>"

text \<open>The number of pixels a call decodes: none when \<open>srclen < 2\<close>.\<close>

definition decoded_pixels :: "byte list \<Rightarrow> nat \<Rightarrow> nat \<Rightarrow> display_mode \<Rightarrow> nat" where
  "decoded_pixels src width height mode =
     (if length src < 2 then 0 else decode_limit mode (length src) (width * height))"

section \<open>Properties of the frame reader\<close>


lemma memcpy_length: "off + n \<le> length buf \<Longrightarrow> n \<le> length src \<Longrightarrow> length (memcpy buf off src n) = length buf"
  by (simp add: memcpy_def)

lemma memcpy_take: "off + n \<le> length buf \<Longrightarrow> n \<le> length src \<Longrightarrow>
   take (off + n) (memcpy buf off src n) = take off buf @ take n src"
  by (simp add: memcpy_def)

lemma loop_body_valid:
  assumes v: "valid_header p" and e: "\<not> has_flag BFH_ERR p"
    and f: "\<not> (fid \<ge> 0 \<and> fid_bit p \<noteq> fid \<and> off > 0)"
    and fit: "off \<le> bufsz" and len: "bufsz \<le> length buf"
    and n: "n = min (length (payload p)) (bufsz - off)"
  shows "\<exists>buf'. length buf' = length buf \<and>
           take (off + n) buf' = take off buf @ take n (payload p) \<and>
           loop_body bufsz (Xfer p) buf off fid =
             (if has_flag BFH_EOF p then Return (int (off + n)) buf'
              else Continue buf' (off + n) (fid_bit p))"
proof (cases "length (payload p) > 0")
  case True
  let ?b = "memcpy buf off (payload p) n"
  have le: "off + n \<le> length buf" "n \<le> length (payload p)" using fit len n by auto
  have 1: "length ?b = length buf" using le by (simp add: memcpy_length)
  have 2: "take (off + n) ?b = take off buf @ take n (payload p)"
    using le by (rule memcpy_take)
  have n': "n = (if off + length (payload p) \<le> bufsz then length (payload p) else bufsz - off)"
    using n fit by auto
  have 3: "loop_body bufsz (Xfer p) buf off fid =
             (if has_flag BFH_EOF p then Return (int (off + n)) ?b else Continue ?b (off + n) (fid_bit p))"
    using v e f True unfolding n'
    by (auto simp: loop_body_def Let_def valid_header_def has_flag_def fid_bit_def payload_def)
  from 1 2 3 show ?thesis by blast
next
  case False
  then have z: "length (payload p) = 0" "n = 0" using n by auto
  have 3: "loop_body bufsz (Xfer p) buf off fid =
             (if has_flag BFH_EOF p then Return (int off) buf else Continue buf off (fid_bit p))"
    using v e f z
    by (auto simp: loop_body_def Let_def valid_header_def has_flag_def fid_bit_def payload_def)
  show ?thesis using z 3 by (intro exI[of _ buf]) simp
qed

lemma read_loop_clean:
  assumes "clean_stream c pkts" and "fid = - 1 \<or> fid = c"
    and "off + length (concat (map payload pkts)) \<le> bufsz" and "bufsz \<le> length buf"
  shows "\<exists>buf' rest. read_loop bufsz (map Xfer pkts) buf off fid =
            Done (int (off + length (concat (map payload pkts)))) buf' rest \<and>
          take (off + length (concat (map payload pkts))) buf' =
            take off buf @ concat (map payload pkts) \<and>
          (off + length (concat (map payload pkts)) < bufsz \<longrightarrow> rest = [])"
  using assms
proof (induction pkts arbitrary: buf off fid)
  case Nil
  then show ?case by (simp add: clean_stream_def)
next
  case (Cons p ps)
  let ?total = "length (concat (map payload (p # ps)))"
  from Cons.prems(1) have v: "valid_header p" and e: "\<not> has_flag BFH_ERR p" and c: "fid_bit p = c"
    by (auto simp: clean_stream_def)
  show ?case
  proof (cases "off < bufsz")
    case False
    with Cons.prems(3) have z: "?total = 0" by linarith
    then have cc: "concat (map payload (p # ps)) = []" by (simp only: length_0_conv)
    show ?thesis unfolding cc using False by simp
  next
    case True
    from Cons.prems(3) have fit: "off + length (payload p) \<le> bufsz" by simp
    then have n: "length (payload p) = min (length (payload p)) (bufsz - off)" by simp
    have nf: "\<not> (fid \<ge> 0 \<and> fid_bit p \<noteq> fid \<and> off > 0)" using Cons.prems(2) c by auto
    have ob: "off \<le> bufsz" using True by simp
    from loop_body_valid[OF v e nf ob Cons.prems(4) n]
    obtain b1 where b1: "length b1 = length buf"
      "take (off + length (payload p)) b1 = take off buf @ payload p"
      "loop_body bufsz (Xfer p) buf off fid =
             (if has_flag BFH_EOF p then Return (int (off + length (payload p))) b1
              else Continue b1 (off + length (payload p)) c)" using c by auto
    show ?thesis
    proof (cases ps)
      case Nil
      with Cons.prems(1) have "has_flag BFH_EOF p" by (simp add: clean_stream_def)
      with True b1 Nil show ?thesis by simp
    next
      case (Cons q qs)
      with Cons.prems(1) have ne: "\<not> has_flag BFH_EOF p" and cs: "clean_stream c ps"
        by (auto simp: clean_stream_def)
      have fit': "(off + length (payload p)) + length (concat (map payload ps)) \<le> bufsz"
        using Cons.prems(3) by simp
      have len': "bufsz \<le> length b1" using b1(1) Cons.prems(4) by simp
      from Cons.IH[OF cs _ fit' len', of c]
      obtain b2 rest where r: "read_loop bufsz (map Xfer ps) b1 (off + length (payload p)) c =
            Done (int (off + length (payload p) + length (concat (map payload ps)))) b2 rest"
          "take (off + length (payload p) + length (concat (map payload ps))) b2 =
            take (off + length (payload p)) b1 @ concat (map payload ps)"
          "off + length (payload p) + length (concat (map payload ps)) < bufsz \<longrightarrow> rest = []" by auto
      have "read_loop bufsz (map Xfer (p # ps)) buf off fid =
              Done (int (off + ?total)) b2 rest"
        using True b1(3) ne r(1) by (simp add: add.assoc)
      moreover have "take (off + ?total) b2 = take off buf @ concat (map payload (p # ps))"
        using r(2) b1(2) by (simp add: add.assoc)
      moreover have "off + ?total < bufsz \<longrightarrow> rest = []" using r(3) by (simp add: add.assoc)
      ultimately show ?thesis by blast
    qed
  qed
qed

text \<open>
  Claim C1. For a stream of packets that all have a valid header, no error bit and the same
  frame-identity bit, with the end-of-frame bit on the last packet only, the frame that
  \<open>read_frame\<close> returns is exactly the concatenation of the packets' payloads (the bytes
  after each header), provided the total payload fits the buffer size (1 MiB in the
  viewer); when it is below the buffer size, the call has consumed the whole stream.
\<close>

theorem read_frame_payload_concat:
  assumes "clean_stream c pkts"
    and "length (concat (map payload pkts)) \<le> bufsz" and "length buf = bufsz"
  shows "frame_of (read_frame (map Xfer pkts) buf bufsz) = Some (concat (map payload pkts)) \<and>
         (length (concat (map payload pkts)) < bufsz \<longrightarrow>
            remaining (read_frame (map Xfer pkts) buf bufsz) = [])"
proof -
  from read_loop_clean[of c pkts "- 1" 0 bufsz buf] assms
  obtain buf' rest where "read_loop bufsz (map Xfer pkts) buf 0 (- 1) =
            Done (int (length (concat (map payload pkts)))) buf' rest"
     "take (length (concat (map payload pkts))) buf' = concat (map payload pkts)"
     "length (concat (map payload pkts)) < bufsz \<longrightarrow> rest = []"
    by auto
  then show ?thesis by (simp add: read_frame_def frame_of_def remaining_def)
qed


text \<open>
  The three-packet scenario: header length 2, identity bit 0, 50 payload bytes each, the
  end-of-frame bit on the third packet, a 1 MiB buffer: one frame of 150 bytes, and nothing
  left of the stream.
\<close>

theorem read_frame_payload_concat_witness:
  "clean_stream 0 [[2, 0] @ replicate 50 0x11, [2, 0] @ replicate 50 0x22, [2, 2] @ replicate 50 0x33] \<and>
   frame_of (read_frame (map Xfer [[2, 0] @ replicate 50 0x11, [2, 0] @ replicate 50 0x22, [2, 2] @ replicate 50 0x33])
      (replicate MAX_FRAME_SIZE 0) MAX_FRAME_SIZE)
     = Some (replicate 50 0x11 @ replicate 50 0x22 @ replicate 50 0x33) \<and>
   length (replicate 50 (0x11 :: byte) @ replicate 50 0x22 @ replicate 50 0x33) = 150 \<and>
   remaining (read_frame (map Xfer [[2, 0] @ replicate 50 0x11, [2, 0] @ replicate 50 0x22, [2, 2] @ replicate 50 0x33])
      (replicate MAX_FRAME_SIZE 0) MAX_FRAME_SIZE) = []"
proof -
  have cs: "clean_stream 0 [[2, 0] @ replicate 50 0x11, [2, 0] @ replicate 50 0x22, [2, 2] @ replicate 50 0x33]"
    by (simp add: clean_stream_def valid_header_def has_flag_def fid_bit_def BFH_ERR_def BFH_EOF_def BFH_FID_def)
  have pl: "concat (map payload [[2, 0] @ replicate 50 0x11, [2, 0] @ replicate 50 0x22, [2, 2] @ replicate 50 0x33])
     = replicate 50 0x11 @ replicate 50 0x22 @ replicate 50 0x33"
    by (simp add: payload_def)
  show ?thesis
    using read_frame_payload_concat[OF cs, of MAX_FRAME_SIZE "replicate MAX_FRAME_SIZE 0"] cs
    unfolding pl by (simp add: MAX_FRAME_SIZE_def)
qed


lemma loop_body_error:
  "valid_header p \<Longrightarrow> has_flag BFH_ERR p \<Longrightarrow> loop_body bufsz (Xfer p) buf off fid = Continue buf 0 (- 1)"
  by (auto simp: loop_body_def Let_def valid_header_def has_flag_def)

lemma loop_body_flip:
  "valid_header p \<Longrightarrow> \<not> has_flag BFH_ERR p \<Longrightarrow> fid \<ge> 0 \<Longrightarrow> fid_bit p \<noteq> fid \<Longrightarrow> off > 0 \<Longrightarrow>
     loop_body bufsz (Xfer p) buf off fid = Return (int off) buf"
  by (auto simp: loop_body_def Let_def valid_header_def has_flag_def fid_bit_def)

lemma loop_body_short:
  "length p < 2 \<Longrightarrow> loop_body bufsz (Xfer p) buf off fid = Continue buf off fid"
  by (simp add: loop_body_def)

lemma loop_body_raw:
  assumes "2 \<le> length p" "\<not> valid_header p" "off \<le> bufsz" "bufsz \<le> length buf"
    and n: "n = min (length p) (bufsz - off)"
  shows "loop_body bufsz (Xfer p) buf off fid = Continue (memcpy buf off p n) (off + n) fid"
proof -
  have c: "unat (p ! 0) < 2 \<or> length p < unat (p ! 0)"
    using assms(2) by (auto simp: valid_header_def)
  have n': "n = (if off + length p \<le> bufsz then length p else bufsz - off)"
    using n assms(3) by auto
  have s: "\<not> length p < 2" using assms(1) by simp
  show ?thesis using c s unfolding n' by (simp add: loop_body_def Let_def)
qed

lemma loop_body_cases:
  fixes p :: "byte list" and fid :: int and off :: nat
  obtains (short) "length p < 2"
  | (raw) "2 \<le> length p" "\<not> valid_header p"
  | (err) "valid_header p" "has_flag BFH_ERR p"
  | (flip) "valid_header p" "\<not> has_flag BFH_ERR p" "fid \<ge> 0 \<and> fid_bit p \<noteq> fid \<and> off > 0"
  | (data) "valid_header p" "\<not> has_flag BFH_ERR p" "\<not> (fid \<ge> 0 \<and> fid_bit p \<noteq> fid \<and> off > (0::nat))"
  by (cases "length p < 2"; cases "valid_header p"; cases "has_flag BFH_ERR p";
      cases "fid \<ge> 0 \<and> fid_bit p \<noteq> fid \<and> off > 0") (simp_all add: not_less)

text \<open>Two buffers that agree below \<open>off\<close> stay in agreement through an iteration and through the loop.\<close>

lemma loop_body_agree:
  assumes ag: "take off b1 = take off b2" and o: "off \<le> bufsz"
    and l1: "bufsz \<le> length b1" and l2: "bufsz \<le> length b2"
  shows "(\<exists>c1 c2 off' fid'. loop_body bufsz ev b1 off fid = Continue c1 off' fid' \<and>
             loop_body bufsz ev b2 off fid = Continue c2 off' fid' \<and>
             take off' c1 = take off' c2 \<and> off' \<le> bufsz \<and>
             length c1 = length b1 \<and> length c2 = length b2) \<or>
         (\<exists>c1 c2 r. loop_body bufsz ev b1 off fid = Return r c1 \<and>
             loop_body bufsz ev b2 off fid = Return r c2 \<and>
             (r \<ge> 0 \<longrightarrow> take (nat r) c1 = take (nat r) c2))"
proof (cases ev)
  case (Xfer p)
  show ?thesis
  proof (cases rule: loop_body_cases[where p=p and fid=fid and off=off])
    case short
    then show ?thesis using Xfer ag o by (simp add: loop_body_short)
  next
    case raw
    define n where "n = min (length p) (bufsz - off)"
    have le: "off + n \<le> length b1" "off + n \<le> length b2" "n \<le> length p" "off + n \<le> bufsz"
      using o l1 l2 by (auto simp: n_def)
    have "take (off + n) (memcpy b1 off p n) = take (off + n) (memcpy b2 off p n)"
      using le ag by (simp add: memcpy_take)
    moreover have "length (memcpy b1 off p n) = length b1" "length (memcpy b2 off p n) = length b2"
      using le by (simp_all add: memcpy_length)
    ultimately show ?thesis
      using Xfer le loop_body_raw[OF raw o l1 n_def] loop_body_raw[OF raw o l2 n_def] by simp
  next
    case err
    then show ?thesis using Xfer by (simp add: loop_body_error)
  next
    case flip
    then show ?thesis using Xfer ag by (simp add: loop_body_flip)
  next
    case data
    define n where "n = min (length (payload p)) (bufsz - off)"
    from loop_body_valid[OF data o l1 n_def] obtain c1 where
      c1: "length c1 = length b1" "take (off + n) c1 = take off b1 @ take n (payload p)"
       "loop_body bufsz (Xfer p) b1 off fid =
             (if has_flag BFH_EOF p then Return (int (off + n)) c1
              else Continue c1 (off + n) (fid_bit p))" by blast
    from loop_body_valid[OF data o l2 n_def] obtain c2 where
      c2: "length c2 = length b2" "take (off + n) c2 = take off b2 @ take n (payload p)"
       "loop_body bufsz (Xfer p) b2 off fid =
             (if has_flag BFH_EOF p then Return (int (off + n)) c2
              else Continue c2 (off + n) (fid_bit p))" by blast
    have "off + n \<le> bufsz" using o by (simp add: n_def)
    moreover have "nat (int off + int n) = off + n" by simp
    ultimately show ?thesis using Xfer c1 c2 ag by auto
  qed
qed (use ag o in \<open>simp_all add: loop_body_def\<close>)

lemma read_loop_agree:
  assumes "take off b1 = take off b2" "off \<le> bufsz" "bufsz \<le> length b1" "bufsz \<le> length b2"
  shows "frame_of (read_loop bufsz evs b1 off fid) = frame_of (read_loop bufsz evs b2 off fid) \<and>
         remaining (read_loop bufsz evs b1 off fid) = remaining (read_loop bufsz evs b2 off fid)"
  using assms
proof (induction evs arbitrary: b1 b2 off fid)
  case Nil
  then show ?case by (auto simp add: frame_of_def remaining_def)
next
  case (Cons ev evs)
  show ?case
  proof (cases "off < bufsz")
    case False
    with Cons.prems show ?thesis by (auto simp add: frame_of_def remaining_def)
  next
    case True
    from loop_body_agree[OF Cons.prems, of ev fid]
    show ?thesis
    proof (elim disjE exE conjE)
      fix c1 c2 off' fid'
      assume a: "loop_body bufsz ev b1 off fid = Continue c1 off' fid'"
        "loop_body bufsz ev b2 off fid = Continue c2 off' fid'"
        "take off' c1 = take off' c2" "off' \<le> bufsz" "length c1 = length b1" "length c2 = length b2"
      have "bufsz \<le> length c1" "bufsz \<le> length c2" using a Cons.prems by simp_all
      from Cons.IH[OF a(3) a(4) this, of fid'] show ?thesis using True a(1,2) by simp
    next
      fix c1 c2 r
      assume a: "loop_body bufsz ev b1 off fid = Return r c1"
        "loop_body bufsz ev b2 off fid = Return r c2"
        "r \<ge> 0 \<longrightarrow> take (nat r) c1 = take (nat r) c2"
      then show ?thesis using True by (simp add: frame_of_def remaining_def)
    qed
  qed
qed

lemma loop_body_Continue_inv:
  assumes "loop_body bufsz ev buf off fid = Continue c off' fid'" "off \<le> bufsz" "bufsz \<le> length buf"
  shows "length c = length buf \<and> off' \<le> bufsz"
  using loop_body_agree[OF refl assms(2,3,3), of ev fid] assms(1) by auto

lemma read_loop_append:
  assumes "read_loop bufsz pre buf off fid = Starved b off' fid'"
  shows "read_loop bufsz (pre @ evs) buf off fid = read_loop bufsz evs b off' fid'"
  using assms
proof (induction pre arbitrary: buf off fid)
  case Nil
  then show ?case by (cases evs) (auto split: if_splits)
next
  case (Cons ev pre)
  then show ?case by (auto split: if_splits iter.splits)
qed

lemma read_loop_Starved_inv:
  assumes "read_loop bufsz pre buf off fid = Starved b off' fid'" "off \<le> bufsz" "bufsz \<le> length buf"
  shows "length b = length buf \<and> off' < bufsz"
  using assms
proof (induction pre arbitrary: buf off fid)
  case Nil
  then show ?case by (auto split: if_splits)
next
  case (Cons ev pre)
  from Cons.prems(1) have lt: "off < bufsz" by (auto split: if_splits)
  from Cons.prems(1) lt obtain c o1 f1 where lb: "loop_body bufsz ev buf off fid = Continue c o1 f1"
    and rl: "read_loop bufsz pre c o1 f1 = Starved b off' fid'"
    by (auto split: iter.splits)
  from loop_body_Continue_inv[OF lb Cons.prems(2,3)] have i: "length c = length buf" "o1 \<le> bufsz" by auto
  from Cons.IH[OF rl i(2)] i(1) Cons.prems(3) show ?case by simp
qed

text \<open>
  Claim C3. A packet with a valid header and the error bit, processed while the call is
  still running (the deliveries \<open>pre\<close> before it did not make it return), resets the
  state to \<open>off = 0\<close>, \<open>fid = -1\<close>; the call then returns what a fresh call on the
  deliveries after the packet returns, whatever its buffer held: the frame has no byte
  received before the error-flagged packet.
\<close>

theorem error_packet_discards:
  assumes v: "valid_header p" and e: "has_flag BFH_ERR p"
    and pre: "read_frame pre buf bufsz = Starved b off fid"
    and l1: "bufsz \<le> length buf" and l2: "bufsz \<le> length buf2"
  shows "loop_body bufsz (Xfer p) b off fid = Continue b 0 (- 1) \<and>
         frame_of (read_frame (pre @ Xfer p # post) buf bufsz) = frame_of (read_frame post buf2 bufsz) \<and>
         remaining (read_frame (pre @ Xfer p # post) buf bufsz) = remaining (read_frame post buf2 bufsz)"
proof -
  have lb: "loop_body bufsz (Xfer p) b off fid = Continue b 0 (- 1)"
    using v e by (rule loop_body_error)
  from pre have pre': "read_loop bufsz pre buf 0 (- 1) = Starved b off fid"
    by (simp add: read_frame_def)
  from read_loop_Starved_inv[OF pre' _ l1] have i: "length b = length buf" "off < bufsz" by auto
  have "read_loop bufsz (pre @ Xfer p # post) buf 0 (- 1) = read_loop bufsz (Xfer p # post) b off fid"
    using pre' by (rule read_loop_append)
  also have "\<dots> = read_loop bufsz post b 0 (- 1)" using i(2) lb by simp
  finally have eq: "read_frame (pre @ Xfer p # post) buf bufsz = read_loop bufsz post b 0 (- 1)"
    by (simp add: read_frame_def)
  have "bufsz \<le> length b" using i(1) l1 by simp
  from read_loop_agree[of 0 b buf2 bufsz post "- 1", OF _ _ this l2] eq lb
  show ?thesis by (simp add: read_frame_def)
qed


text \<open>
  Two payload bytes are accumulated, the error-flagged packet arrives, then one packet with
  the end-of-frame bit: the frame is that packet's single byte.
\<close>

theorem error_packet_discards_witness:
  "valid_header [2, 0x40, 9] \<and> has_flag BFH_ERR [2, 0x40, 9] \<and>
   read_frame [Xfer [2, 0, 1, 2]] [0, 0, 0, 0] 4 = Starved [1, 2, 0, 0] 2 0 \<and>
   loop_body 4 (Xfer [2, 0x40, 9]) [1, 2, 0, 0] 2 0 = Continue [1, 2, 0, 0] 0 (- 1) \<and>
   frame_of (read_frame ([Xfer [2, 0, 1, 2]] @ Xfer [2, 0x40, 9] # [Xfer [2, 2, 7]]) [0, 0, 0, 0] 4)
     = Some [7]"
proof -
  have v: "valid_header [2, 0x40, 9]" by (simp add: valid_header_def)
  have e: "has_flag BFH_ERR [2, 0x40, 9]" by (simp add: has_flag_def BFH_ERR_def)
  have pre: "read_frame [Xfer [2, 0, 1, 2]] [0, 0, 0, 0] 4 = Starved [1, 2, 0, 0] 2 0"
    by (simp add: read_frame_def loop_body_def memcpy_def BFH_ERR_def BFH_EOF_def BFH_FID_def)
  have post: "frame_of (read_frame [Xfer [2, 2, 7]] [5, 5, 5, 5] 4) = Some [7]"
    by (simp add: read_frame_def loop_body_def memcpy_def frame_of_def BFH_ERR_def BFH_EOF_def BFH_FID_def)
  show ?thesis
    using error_packet_discards[OF v e pre, of "[5, 5, 5, 5]" "[Xfer [2, 2, 7]]"] v e pre post
    by simp
qed

text \<open>
  Claim C2, as amended. While \<open>0 < off\<close> bytes are accumulated and an identity is tracked
  (\<open>fid \<ge> 0\<close>), a packet with a valid header, no error bit and the other identity bit
  makes \<open>read_frame\<close> return the accumulation as it is. The packet has been fetched and
  is not processed further: the deliveries left for the next call are those after it.
\<close>

theorem identity_flip_seals:
  assumes "valid_header p" and "\<not> has_flag BFH_ERR p"
    and "fid \<ge> 0" and "fid_bit p \<noteq> fid" and "0 < off" and "off < bufsz"
  shows "read_loop bufsz (Xfer p # rest) buf off fid = Done (int off) buf rest \<and>
         frame_of (read_loop bufsz (Xfer p # rest) buf off fid) = Some (take off buf) \<and>
         remaining (read_loop bufsz (Xfer p # rest) buf off fid) = rest"
  using assms by (simp add: loop_body_flip frame_of_def remaining_def)

text \<open>
  One byte accumulated under identity 0, then a packet with identity 1.
\<close>

theorem identity_flip_seals_witness:
  "valid_header [2, 1, 2] \<and> \<not> has_flag BFH_ERR [2, 1, 2] \<and> fid_bit [2, 1, 2] \<noteq> 0 \<and>
   read_loop 4 (Xfer [2, 1, 2] # [Xfer [2, 3, 3]]) [1, 0, 0, 0] 1 0 = Done 1 [1, 0, 0, 0] [Xfer [2, 3, 3]] \<and>
   frame_of (read_loop 4 (Xfer [2, 1, 2] # [Xfer [2, 3, 3]]) [1, 0, 0, 0] 1 0) = Some [1]"
proof -
  have v: "valid_header [2, 1, 2]" by (simp add: valid_header_def)
  have e: "\<not> has_flag BFH_ERR [2, 1, 2]" by (simp add: has_flag_def BFH_ERR_def)
  have f: "fid_bit [2, 1, 2] \<noteq> 0" by (simp add: fid_bit_def BFH_FID_def)
  show ?thesis
    using identity_flip_seals[OF v e _ f, of 1 4 "[Xfer [2, 3, 3]]" "[1, 0, 0, 0]"] v e f
    by (simp add: frame_of_def)
qed

text \<open>
  Claim C2 as stated fails: the payload of the identity-flipping packet does not start the
  next accumulation. Three packets with payloads 1 (identity 0), 2 (identity 1) and
  3 (identity 1, end of frame): the first call returns the frame \<open>[1]\<close>, the next call
  returns \<open>[3]\<close>; byte 2 is in neither.
\<close>

theorem identity_flip_drops_payload:
  "frame_of (read_frame [Xfer [2, 0, 1], Xfer [2, 1, 2], Xfer [2, 3, 3]] [0, 0, 0, 0] 4) = Some [1] \<and>
   remaining (read_frame [Xfer [2, 0, 1], Xfer [2, 1, 2], Xfer [2, 3, 3]] [0, 0, 0, 0] 4) = [Xfer [2, 3, 3]] \<and>
   frame_of (read_frame [Xfer [2, 3, 3]] [1, 0, 0, 0] 4) = Some [3]"
  by (simp add: read_frame_def loop_body_def memcpy_def frame_of_def remaining_def
        BFH_ERR_def BFH_EOF_def BFH_FID_def)

text \<open>
  Claim C4, as amended. Inside the loop (\<open>off < bufsz\<close>): a packet with a valid header
  that is appended (no error bit, no identity flip with bytes accumulated) has the
  \<open>length - header_length\<close> bytes after its header as payload, and the bytes appended are
  these, cut to the space left below \<open>bufsz\<close>, never more; a packet of at least 2 bytes
  whose header fails the validity rule is copied whole, cut to the space left; a packet
  shorter than 2 bytes is skipped.
\<close>

theorem packet_contribution:
  assumes "off < bufsz" and "bufsz \<le> length buf"
  shows "(valid_header p \<and> \<not> has_flag BFH_ERR p \<and> \<not> (fid \<ge> 0 \<and> fid_bit p \<noteq> fid \<and> off > 0) \<longrightarrow>
            length (payload p) = length p - unat (p ! 0) \<and>
            (\<exists>buf' n. n = min (length (payload p)) (bufsz - off) \<and>
               loop_body bufsz (Xfer p) buf off fid =
                 (if has_flag BFH_EOF p then Return (int (off + n)) buf'
                  else Continue buf' (off + n) (fid_bit p)) \<and>
               take (off + n) buf' = take off buf @ take n (payload p))) \<and>
         (\<not> valid_header p \<and> 2 \<le> length p \<longrightarrow>
            (\<exists>buf' n. n = min (length p) (bufsz - off) \<and>
               loop_body bufsz (Xfer p) buf off fid = Continue buf' (off + n) fid \<and>
               take (off + n) buf' = take off buf @ take n p)) \<and>
         (length p < 2 \<longrightarrow> loop_body bufsz (Xfer p) buf off fid = Continue buf off fid)"
proof (intro conjI impI)
  assume a: "valid_header p \<and> \<not> has_flag BFH_ERR p \<and> \<not> (fid \<ge> 0 \<and> fid_bit p \<noteq> fid \<and> off > 0)"
  show "length (payload p) = length p - unat (p ! 0)" by (simp add: payload_def)
  have o: "off \<le> bufsz" using assms(1) by simp
  from a loop_body_valid[OF _ _ _ o assms(2) refl, of p fid]
  show "\<exists>buf' n. n = min (length (payload p)) (bufsz - off) \<and>
               loop_body bufsz (Xfer p) buf off fid =
                 (if has_flag BFH_EOF p then Return (int (off + n)) buf'
                  else Continue buf' (off + n) (fid_bit p)) \<and>
               take (off + n) buf' = take off buf @ take n (payload p)"
    by blast
next
  assume a: "\<not> valid_header p \<and> 2 \<le> length p"
  have o: "off \<le> bufsz" using assms(1) by simp
  define n where "n = min (length p) (bufsz - off)"
  have le: "off + n \<le> length buf" "n \<le> length p" using o assms(2) by (auto simp: n_def)
  from a have a1: "\<not> valid_header p" and a2: "2 \<le> length p" by simp_all
  from loop_body_raw[OF a2 a1 o assms(2) n_def] memcpy_take[OF le]
  show "\<exists>buf' n. n = min (length p) (bufsz - off) \<and>
               loop_body bufsz (Xfer p) buf off fid = Continue buf' (off + n) fid \<and>
               take (off + n) buf' = take off buf @ take n p"
    unfolding n_def by blast
next
  assume "length p < 2"
  then show "loop_body bufsz (Xfer p) buf off fid = Continue buf off fid"
    by (rule loop_body_short)
qed

text \<open>
  A valid packet with three payload bytes, a packet with header length 9 (invalid) copied
  whole, and a 1-byte packet skipped.
\<close>

theorem packet_contribution_witness:
  "loop_body 8 (Xfer [2, 0, 7, 8, 9]) [1, 0, 0, 0, 0, 0, 0, 0] 1 0 = Continue [1, 7, 8, 9, 0, 0, 0, 0] 4 0 \<and>
   loop_body 8 (Xfer [9, 0, 7]) [1, 0, 0, 0, 0, 0, 0, 0] 1 0 = Continue [1, 9, 0, 7, 0, 0, 0, 0] 4 0 \<and>
   loop_body 8 (Xfer [5]) [1, 0, 0, 0, 0, 0, 0, 0] 1 0 = Continue [1, 0, 0, 0, 0, 0, 0, 0] 1 0"
  using packet_contribution[of 1 8 "[1, 0, 0, 0, 0, 0, 0, 0]" "[2, 0, 7, 8, 9]" 0]
        packet_contribution[of 1 8 "[1, 0, 0, 0, 0, 0, 0, 0]" "[9, 0, 7]" 0]
        packet_contribution[of 1 8 "[1, 0, 0, 0, 0, 0, 0, 0]" "[5]" 0]
  by (simp add: loop_body_def memcpy_def BFH_ERR_def BFH_EOF_def BFH_FID_def)

text \<open>
  Claim C4 as stated fails for packets shorter than 2 bytes: the 1-byte packet \<open>[5]\<close> has
  no valid header (header length 5 exceeds its length), and it is skipped, not copied.
\<close>

theorem short_packet_not_copied:
  "\<not> valid_header [5] \<and>
   loop_body 4 (Xfer [5]) [0, 0, 0, 0] 0 (- 1) = Continue [0, 0, 0, 0] 0 (- 1)"
  by (simp add: valid_header_def loop_body_def)


section \<open>Properties of the metadata stripper, the gates and the classifier\<close>

lemma sdiv_nonneg: "0 \<le> a \<Longrightarrow> 0 < b \<Longrightarrow> (a::int) sdiv b = a div b"
  by (simp add: signed_divide_int_def sgn_if)

text \<open>
  Claim C5. \<open>strip_meta_header\<close> never changes the buffer the view points into. When the
  length exceeds 12 and bytes 1, 2, 3 of the view are \<open>0x00\<close>, \<open>0xE8\<close>, \<open>0x03\<close>, it
  reports metadata (returns 1) and the view loses exactly its 10 leading bytes; otherwise
  it returns 0 and the view is unchanged. The length difference is 0 or 10.
\<close>

theorem strip_meta_header_spec:
  "base (fst (strip_meta_header v)) = base v \<and>
   (len v > 12 \<and> peek v 1 = 0x00 \<and> peek v 2 = 0xE8 \<and> peek v 3 = 0x03 \<longrightarrow>
      snd (strip_meta_header v) = 1 \<and>
      start (fst (strip_meta_header v)) = start v + 10 \<and>
      len (fst (strip_meta_header v)) = len v - 10 \<and>
      contents (fst (strip_meta_header v)) = drop 10 (contents v)) \<and>
   (\<not> (len v > 12 \<and> peek v 1 = 0x00 \<and> peek v 2 = 0xE8 \<and> peek v 3 = 0x03) \<longrightarrow>
      snd (strip_meta_header v) = 0 \<and> fst (strip_meta_header v) = v) \<and>
   len v - len (fst (strip_meta_header v)) \<in> {0, 10}"
proof -
  have "nat (len v - 10) = nat (len v) - 10" by simp
  then show ?thesis
    by (simp add: strip_meta_header_def contents_def drop_take add.commute)
qed

text \<open>
  A 13-byte frame with the signature is stripped to its last 3 bytes; the same signature
  in a 12-byte frame is left alone.
\<close>

theorem strip_meta_header_spec_witness:
  "strip_meta_header \<lparr>base = [7, 0, 0xE8, 3, 0, 0, 3, 0, 0, 0, 41, 42, 43], start = 0, len = 13\<rparr>
     = (\<lparr>base = [7, 0, 0xE8, 3, 0, 0, 3, 0, 0, 0, 41, 42, 43], start = 10, len = 3\<rparr>, 1) \<and>
   contents \<lparr>base = [7, 0, 0xE8, 3, 0, 0, 3, 0, 0, 0, 41, 42, 43], start = 10, len = 3\<rparr> = [41, 42, 43] \<and>
   strip_meta_header \<lparr>base = [7, 0, 0xE8, 3, 0, 0, 3, 0, 0, 0, 41, 42], start = 0, len = 12\<rparr>
     = (\<lparr>base = [7, 0, 0xE8, 3, 0, 0, 3, 0, 0, 0, 41, 42], start = 0, len = 12\<rparr>, 0)"
  using strip_meta_header_spec[of "\<lparr>base = [7, 0, 0xE8, 3, 0, 0, 3, 0, 0, 0, 41, 42, 43], start = 0, len = 13\<rparr>"]
    strip_meta_header_spec[of "\<lparr>base = [7, 0, 0xE8, 3, 0, 0, 3, 0, 0, 0, 41, 42], start = 0, len = 12\<rparr>"]
  by (simp add: strip_meta_header_def contents_def peek_def)

text \<open>
  Claim C6. With frame-hold on and a size lock of 1000 bytes, frames of 800 and 1200 bytes
  pass the size-band filter and frames of 799 and 1201 bytes are skipped. For every locked
  size \<open>L > 0\<close> a frame is skipped exactly when its length is below
  \<open>L * (100 - 20) / 100\<close> or above \<open>L * (100 + 20) / 100\<close> in integer arithmetic. (For
  every lock up to the 1 MiB frame ceiling the products stay below \<open>2^31\<close>, so the C
  \<open>int\<close> arithmetic does not overflow.)
\<close>

theorem size_band_gate:
  "\<not> size_band_reject True 1000 800 \<and> \<not> size_band_reject True 1000 1200 \<and>
   size_band_reject True 1000 799 \<and> size_band_reject True 1000 1201 \<and>
   (0 < L \<longrightarrow>
      (size_band_reject True L n \<longleftrightarrow>
         n < L * (100 - 20) div 100 \<or> n > L * (100 + 20) div 100) \<and>
      (L \<le> int MAX_FRAME_SIZE \<longrightarrow> L * (100 + size_tolerance) < 2 ^ 31))"
  by (simp add: size_band_reject_def size_tolerance_def sdiv_nonneg MAX_FRAME_SIZE_def)

text \<open>
  The general statement at \<open>L = 1000\<close> and a 799-byte frame.
\<close>

theorem size_band_gate_witness:
  "(size_band_reject True 1000 799 \<longleftrightarrow> 799 < (1000::int) * (100 - 20) div 100 \<or> 799 > (1000::int) * (100 + 20) div 100) \<and>
   size_band_reject True 1000 799"
  using size_band_gate[of 1000 799] by simp

lemma lower_reachable: "(lower_bright_thresh ^^ k) 15 \<in> {15, 10, 5, 0}"
  by (induction k) (auto simp: lower_bright_thresh_def)

text \<open>
  Claim C9. The brightness floor is a local of \<open>main\<close>, set to 15 before the loop and
  assigned by the \<open>SDLK_b\<close> handler only, so its current value is always the default
  lowered some number \<open>k\<close> of times: 15, 10, 5 or 0. For every such value one more
  "lower brightness floor" action yields \<open>max (old - 5) 0\<close>, which is never below 0.
\<close>

theorem lower_bright_thresh_floor:
  "bright_thresh initial_viewer = 15 \<and>
   (lower_bright_thresh ^^ k) (bright_thresh initial_viewer) \<in> {15, 10, 5, 0} \<and>
   lower_bright_thresh ((lower_bright_thresh ^^ k) (bright_thresh initial_viewer)) =
     max ((lower_bright_thresh ^^ k) (bright_thresh initial_viewer) - 5) 0 \<and>
   0 \<le> lower_bright_thresh ((lower_bright_thresh ^^ k) (bright_thresh initial_viewer))"
proof -
  have i: "bright_thresh initial_viewer = 15" by (simp add: initial_viewer_def)
  have r: "(lower_bright_thresh ^^ k) 15 \<in> {15, 10, 5, 0}" by (rule lower_reachable)
  then have "lower_bright_thresh ((lower_bright_thresh ^^ k) 15) =
               max ((lower_bright_thresh ^^ k) 15 - 5) 0"
    by (auto simp: lower_bright_thresh_def)
  then show ?thesis using r unfolding i by simp
qed

text \<open>
  The handler on the default, and after two and three earlier presses: 15 to 10, 5 to 0,
  and 0 stays 0.
\<close>

theorem lower_bright_thresh_floor_witness:
  "lower_bright_thresh 15 = 10 \<and> lower_bright_thresh 5 = 0 \<and> lower_bright_thresh 0 = 0"
  using lower_bright_thresh_floor[of 0] lower_bright_thresh_floor[of 2]
    lower_bright_thresh_floor[of 3]
  by (simp add: lower_bright_thresh_def numeral_2_eq_2 numeral_3_eq_3)

lemma fold_sum_upt:
  fixes f :: "nat \<Rightarrow> int"
  shows "fold (\<lambda>i s. s + f i) [1..<m] s0 = s0 + (\<Sum>i = 1..<m. f i)"
proof (induction m)
  case 0
  then show ?case by simp
next
  case (Suc m)
  show ?case
  proof (cases "m = 0")
    case True
    then show ?thesis by simp
  next
    case False
    then have "[1..<Suc m] = [1..<m] @ [m]" by simp
    moreover have "(\<Sum>i = 1..<Suc m. f i) = (\<Sum>i = 1..<m. f i) + f m"
      using False by (simp add: sum.atLeastLessThan_Suc)
    ultimately show ?thesis using Suc.IH by simp
  qed
qed

lemma nd_check_min: "nd_check n = min n 4000"
  by (simp add: nd_check_def)

text \<open>
  For \<open>n \<ge> 2\<close> the result is the mean of the absolute differences between neighbours
  among the first \<open>min (n, 4000)\<close> bytes; no later byte is read.
\<close>

lemma neighbor_diff_mean:
  assumes "2 \<le> n"
  shows "neighbor_diff p n =
           real_of_int (\<Sum>i = 1..<nat (min n 4000). \<bar>uint (p ! i) - uint (p ! (i - 1))\<bar>) /
           real_of_int (min n 4000 - 1)"
proof -
  have "nd_sum p (min n 4000) =
          0 + (\<Sum>i = 1..<nat (min n 4000). \<bar>uint (p ! i) - uint (p ! (i - 1))\<bar>)"
    unfolding nd_sum_def by (rule fold_sum_upt)
  then show ?thesis using assms by (simp add: neighbor_diff_def nd_check_min)
qed

lemma neighbor_diff_step:
  assumes n: "2 \<le> n"
    and d: "\<And>i. 1 \<le> i \<Longrightarrow> i < nat (min n 4000) \<Longrightarrow> \<bar>uint (p ! i) - uint (p ! (i - 1))\<bar> = d"
  shows "neighbor_diff p n = real_of_int d"
proof -
  define m where "m = nat (min n 4000)"
  have m: "2 \<le> m" using n by (simp add: m_def)
  have "(\<Sum>i = 1..<m. \<bar>uint (p ! i) - uint (p ! (i - 1))\<bar>) = (\<Sum>i = 1..<m. d)"
    by (rule sum.cong) (use d in \<open>simp_all add: m_def\<close>)
  also have "\<dots> = d * int (m - 1)" by simp
  finally have s: "(\<Sum>i = 1..<m. \<bar>uint (p ! i) - uint (p ! (i - 1))\<bar>) = d * int (m - 1)" .
  have e: "int (m - 1) = min n 4000 - 1" using n by (simp add: m_def)
  have nz: "real_of_int (min n 4000 - 1) \<noteq> 0" using n by simp
  show ?thesis
    unfolding neighbor_diff_mean[OF n] m_def[symmetric] s e using nz by simp
qed

text \<open>
  Claim C7. \<open>neighbor_diff\<close> is computed over the first \<open>min (n, 4000)\<close> bytes: it is 0
  when \<open>n < 2\<close>, and otherwise the mean absolute difference of neighbours among these
  bytes. When these bytes all have the same value it is 0 and the frame is not labelled
  interleaved; when \<open>n \<ge> 2\<close> and these bytes alternate \<open>0x00, 0xFF, 0x00, 0xFF, ...\<close> it is
  255 and the frame is labelled interleaved, whatever the bytes after them are; and the
  label is exactly \<open>neighbor_diff > 25.0\<close>.
\<close>

theorem neighbor_diff_classes:
  "((\<forall>i < nat (min n 4000). p ! i = c) \<longrightarrow> neighbor_diff p n = 0 \<and> \<not> is_interleaved p n) \<and>
   (2 \<le> n \<and> (\<forall>i < nat (min n 4000). p ! i = (if even i then 0x00 else 0xFF)) \<longrightarrow>
      neighbor_diff p n = 255 \<and> is_interleaved p n) \<and>
   (is_interleaved p n \<longleftrightarrow> neighbor_diff p n > 25.0) \<and>
   (n < 2 \<longrightarrow> neighbor_diff p n = 0) \<and>
   (2 \<le> n \<longrightarrow>
      neighbor_diff p n =
        real_of_int (\<Sum>i = 1..<nat (min n 4000). \<bar>uint (p ! i) - uint (p ! (i - 1))\<bar>) /
        real_of_int (min n 4000 - 1))"
proof (intro conjI impI)
  assume a: "\<forall>i < nat (min n 4000). p ! i = c"
  have "neighbor_diff p n = 0"
  proof (cases "n < 2")
    case True
    then show ?thesis by (simp add: neighbor_diff_def)
  next
    case False
    then have n: "2 \<le> n" by simp
    have "neighbor_diff p n = real_of_int 0"
      using a by (intro neighbor_diff_step[OF n]) simp
    then show ?thesis by simp
  qed
  then show "neighbor_diff p n = 0" "\<not> is_interleaved p n" by (simp_all add: is_interleaved_def)
next
  assume a: "2 \<le> n \<and> (\<forall>i < nat (min n 4000). p ! i = (if even i then 0x00 else 0xFF))"
  then have n: "2 \<le> n" by simp
  have "neighbor_diff p n = real_of_int 255"
  proof (intro neighbor_diff_step[OF n])
    fix i assume i: "1 \<le> i" "i < nat (min n 4000)"
    then have "p ! i = (if even i then 0x00 else 0xFF)" "p ! (i - 1) = (if even (i - 1) then 0x00 else 0xFF)"
      using a by simp_all
    moreover have "even (i - 1) \<longleftrightarrow> odd i" using i by simp
    ultimately show "\<bar>uint (p ! i) - uint (p ! (i - 1))\<bar> = 255" by simp
  qed
  then show "neighbor_diff p n = 255" "is_interleaved p n" by (simp_all add: is_interleaved_def)
next
  assume "2 \<le> n"
  then show "neighbor_diff p n =
        real_of_int (\<Sum>i = 1..<nat (min n 4000). \<bar>uint (p ! i) - uint (p ! (i - 1))\<bar>) /
        real_of_int (min n 4000 - 1)"
    by (rule neighbor_diff_mean)
qed (simp_all add: is_interleaved_def neighbor_diff_def)

text \<open>
  Four bytes \<open>0x80\<close>; four bytes alternating \<open>0x00, 0xFF\<close>; and 4001 bytes of which the
  first 4000 are \<open>0x80\<close> and the last is \<open>0x00\<close>: the last byte is not looked at.
\<close>

theorem neighbor_diff_classes_witness:
  "neighbor_diff [0x80, 0x80, 0x80, 0x80] 4 = 0 \<and> \<not> is_interleaved [0x80, 0x80, 0x80, 0x80] 4 \<and>
   neighbor_diff [0x00, 0xFF, 0x00, 0xFF] 4 = 255 \<and> is_interleaved [0x00, 0xFF, 0x00, 0xFF] 4 \<and>
   neighbor_diff (replicate 4000 0x80 @ [0x00]) 4001 = 0"
proof -
  have c: "i = 0 \<or> i = 1 \<or> i = 2 \<or> i = 3" if "i < nat (min 4 4000)" for i :: nat
    using that by auto
  have 1: "\<forall>i < nat (min 4 4000). [0x80, 0x80, 0x80, 0x80 :: byte] ! i = 0x80"
    using c by fastforce
  have 2: "\<forall>i < nat (min 4 4000). [0x00, 0xFF, 0x00, 0xFF :: byte] ! i = (if even i then 0x00 else 0xFF)"
    using c by fastforce
  have 3: "\<forall>i < nat (min 4001 4000). (replicate 4000 (0x80 :: byte) @ [0x00]) ! i = 0x80"
    by (simp add: nth_append)
  show ?thesis
    using neighbor_diff_classes[of 4 "[0x80, 0x80, 0x80, 0x80]" "0x80"]
      neighbor_diff_classes[of 4 "[0x00, 0xFF, 0x00, 0xFF]"]
      neighbor_diff_classes[of 4001 "replicate 4000 0x80 @ [0x00]" "0x80"] 1 2 3
    by simp
qed

section \<open>Properties of the renderer\<close>

lemma stretch_loop_result:
  assumes s: "\<And>i. i < limit \<Longrightarrow> sample i = Some (g i)" and r: "rng \<noteq> 0"
    and l: "limit \<le> length dst"
  shows "stretch_loop sample limit mn rng dst =
           Some (map (\<lambda>i. argb (clamp_u8 (((g i - mn) * 255) sdiv rng))) [0..<limit] @ drop limit dst)"
  using s l
proof (induction limit)
  case 0
  then show ?case by (simp add: stretch_loop_def)
next
  case (Suc k)
  let ?f = "\<lambda>i. argb (clamp_u8 (((g i - mn) * 255) sdiv rng))"
  have ih: "stretch_loop sample k mn rng dst = Some (map ?f [0..<k] @ drop k dst)"
    using Suc by simp
  have k: "k < length dst" using Suc.prems(2) by simp
  have sk: "sample k = Some (g k)" using Suc.prems(1) by simp
  have upd: "(map ?f [0..<k] @ drop k dst)[k := ?f k] = map ?f [0..<Suc k] @ drop (Suc k) dst"
    using k by (simp add: list_update_append Cons_nth_drop_Suc[symmetric])
  have "stretch_loop sample (Suc k) mn rng dst =
          store (map ?f [0..<k] @ drop k dst) k (?f k)"
    using ih sk r by (simp add: stretch_loop_def stretch_px_def)
  also have "\<dots> = Some (map ?f [0..<Suc k] @ drop (Suc k) dst)"
    using k upd by (simp add: store_def)
  finally show ?case .
qed

lemma scan_minmax_result:
  assumes s: "\<And>i. i < limit \<Longrightarrow> sample i = Some (g i)"
  shows "\<exists>mn mx. scan_minmax sample limit mn0 mx0 = Some (mn, mx) \<and>
           (\<forall>i < limit. mn \<le> g i \<and> g i \<le> mx) \<and>
           (mn = mn0 \<or> (\<exists>i < limit. mn = g i)) \<and> (mx = mx0 \<or> (\<exists>i < limit. mx = g i))"
  using s
proof (induction limit)
  case 0
  then show ?case by (simp add: scan_minmax_def)
next
  case (Suc k)
  from Suc obtain mn mx where ih: "scan_minmax sample k mn0 mx0 = Some (mn, mx)"
    "\<forall>i < k. mn \<le> g i \<and> g i \<le> mx"
    "mn = mn0 \<or> (\<exists>i < k. mn = g i)" "mx = mx0 \<or> (\<exists>i < k. mx = g i)"
    by (metis less_Suc_eq)
  have sk: "sample k = Some (g k)" using Suc.prems by simp
  let ?mn = "if g k < mn then g k else mn" and ?mx = "if g k > mx then g k else mx"
  have 1: "scan_minmax sample (Suc k) mn0 mx0 = Some (?mn, ?mx)"
    using ih(1) sk by (simp add: scan_minmax_def)
  have 2: "\<forall>i < Suc k. ?mn \<le> g i \<and> g i \<le> ?mx"
    using ih(2) by (auto simp: less_Suc_eq) 
  have 3: "?mn = mn0 \<or> (\<exists>i < Suc k. ?mn = g i)"
    using ih(3) by (auto simp: less_Suc_eq)
  have 4: "?mx = mx0 \<or> (\<exists>i < Suc k. ?mx = g i)"
    using ih(4) by (auto simp: less_Suc_eq)
  from 1 2 3 4 show ?case by blast
qed

lemma stretch_bounds:
  assumes "mn \<le> b" "b \<le> mx"
  shows "0 \<le> ((b - mn) * 255) sdiv contrast_range mn mx \<and>
         ((b - mn) * 255) sdiv contrast_range mn mx \<le> 255"
proof (cases "mx - mn > 0")
  case True
  then have r: "contrast_range mn mx = mx - mn" by (simp add: contrast_range_def)
  have n: "0 \<le> (b - mn) * 255" using assms by simp
  have "(b - mn) * 255 \<le> 255 * (mx - mn)" using assms by simp
  then have "(b - mn) * 255 div (mx - mn) \<le> 255 * (mx - mn) div (mx - mn)"
    using True by (intro zdiv_mono1) simp_all
  moreover have "255 * (mx - mn) div (mx - mn) = 255"
    by (rule nonzero_mult_div_cancel_right) (use True in simp)
  ultimately have "(b - mn) * 255 div (mx - mn) \<le> 255"
    by (simp only:)
  moreover have "0 \<le> (b - mn) * 255 div (mx - mn)" using n True by (simp add: pos_imp_zdiv_nonneg_iff)
  ultimately show ?thesis using r n True by (simp add: sdiv_nonneg)
next
  case False
  then have "b = mn" using assms by simp
  then show ?thesis by simp
qed

lemma contrast_range_pos: "1 \<le> contrast_range mn mx"
  by (simp add: contrast_range_def)

lemma mode_sample_defined:
  assumes "2 \<le> length src" "i < decode_limit mode (length src) npix"
  shows "\<exists>b. mode_sample mode src i = Some b \<and> 0 \<le> b \<and> b \<le> mode_top mode"
proof (cases mode)
  case MODE_RAW
  have "uint w \<le> 255" for w :: byte
    using uint_lt2p[of w] by simp
  then show ?thesis using assms MODE_RAW
    by (auto simp: mode_sample_def decode_limit_def sample_raw_def load_def mode_top_def split: if_splits)
next
  case MODE_DEINT_EVEN
  have "uint w \<le> 255" for w :: byte
    using uint_lt2p[of w] by simp
  then show ?thesis using assms MODE_DEINT_EVEN
    by (auto simp: mode_sample_def decode_limit_def sample_deint_def load_def mode_top_def Let_def split: if_splits)
next
  case MODE_DEINT_ODD
  have "uint w \<le> 255" for w :: byte
    using uint_lt2p[of w] by simp
  then show ?thesis using assms MODE_DEINT_ODD
    by (auto simp: mode_sample_def decode_limit_def sample_deint_def load_def mode_top_def Let_def split: if_splits)
next
  case MODE_16BIT_LE
  have "uint w \<le> 65535" for w :: "16 word"
    using uint_lt2p[of w] by simp
  then show ?thesis using assms MODE_16BIT_LE
    by (auto simp: mode_sample_def decode_limit_def sample_16le_def load_def mode_top_def Let_def split: if_splits)
qed


lemma decode_result:
  assumes smp: "\<And>i. i < limit \<Longrightarrow> sample i = Some (g i) \<and> 0 \<le> g i \<and> g i \<le> hi"
    and top: "0 \<le> hi" and l: "limit \<le> length d"
  shows "\<exists>mn mx. scan_minmax sample limit hi 0 = Some (mn, mx) \<and>
           decode sample limit hi d =
             Some (map (\<lambda>i. argb (clamp_u8 (((g i - mn) * 255) sdiv contrast_range mn mx)))
                     [0..<limit] @ drop limit d) \<and>
           (\<forall>i < limit. mn \<le> g i \<and> g i \<le> mx) \<and>
           (\<forall>k. (\<forall>i < limit. g i = k) \<longrightarrow> contrast_range mn mx = 1 \<and> (0 < limit \<longrightarrow> mn = k))"
proof -
  have s: "\<And>i. i < limit \<Longrightarrow> sample i = Some (g i)" using smp by simp
  from scan_minmax_result[of limit sample g hi 0, OF s]
  obtain mn mx where mm: "scan_minmax sample limit hi 0 = Some (mn, mx)"
    "\<forall>i < limit. mn \<le> g i \<and> g i \<le> mx"
    "mn = hi \<or> (\<exists>i < limit. mn = g i)" "mx = 0 \<or> (\<exists>i < limit. mx = g i)"
    by blast
  have r: "contrast_range mn mx \<noteq> 0" using contrast_range_pos[of mn mx] by simp
  have dec: "decode sample limit hi d =
             Some (map (\<lambda>i. argb (clamp_u8 (((g i - mn) * 255) sdiv contrast_range mn mx)))
                     [0..<limit] @ drop limit d)"
    using mm(1) stretch_loop_result[of limit sample g "contrast_range mn mx" d mn, OF s r l]
    by (simp add: decode_def)
  have uni: "contrast_range mn mx = 1 \<and> (0 < limit \<longrightarrow> mn = k)" if u: "\<forall>i < limit. g i = k" for k
  proof (cases "limit = 0")
    case True
    then have "mn = hi" "mx = 0" using mm(3,4) by simp_all
    then show ?thesis using top True by (simp add: contrast_range_def)
  next
    case False
    then have "g 0 = k" "0 \<le> k" "k \<le> hi" using u smp[of 0] by auto
    moreover have "mn = hi \<or> mn = k" "mx = 0 \<or> mx = k" using mm(3,4) u by auto
    moreover have "mn \<le> k" "k \<le> mx" using mm(2) u False by auto
    ultimately have "mn = k" "mx = k" by auto
    then show ?thesis by (simp add: contrast_range_def)
  qed
  from mm(1,2) dec uni show ?thesis by blast
qed

lemma decode_limit_le: "decode_limit mode srclen npix \<le> npix"
  by (cases mode) (simp_all add: decode_limit_def Let_def)

lemma mode_top_nonneg: "0 \<le> mode_top mode"
  by (cases mode) (simp_all add: mode_top_def)

lemma mode_sample_uniform:
  assumes "2 \<le> length src" "\<forall>b \<in> set src. b = c"
  shows "\<exists>k. \<forall>i < decode_limit mode (length src) npix. mode_sample mode src i = Some k"
proof -
  have c: "src ! j = c" if "j < length src" for j using assms(2) that by simp
  show ?thesis
  proof (cases mode)
    case MODE_RAW
    then show ?thesis using c
      by (auto simp: mode_sample_def decode_limit_def sample_raw_def load_def split: if_splits)
  next
    case MODE_DEINT_EVEN
    then show ?thesis using c
      by (auto simp: mode_sample_def decode_limit_def sample_deint_def load_def Let_def split: if_splits)
  next
    case MODE_DEINT_ODD
    then show ?thesis using c
      by (auto simp: mode_sample_def decode_limit_def sample_deint_def load_def Let_def split: if_splits)
  next
    case MODE_16BIT_LE
    then show ?thesis using c
      by (auto simp: mode_sample_def decode_limit_def sample_16le_def load_def Let_def split: if_splits)
  qed
qed


lemma clamp_u8_id: "0 \<le> s \<Longrightarrow> s \<le> 255 \<Longrightarrow> clamp_u8 s = word_of_int s"
  by (simp add: clamp_u8_def)

text \<open>
  Claim C8. For every source, every mode and every \<open>width\<close> and \<open>height\<close> whose product
  the destination holds, \<open>render_frame\<close> completes without an access outside the source
  or the destination and without a division by zero. Nothing at index \<open>width * height\<close> or
  beyond is changed; every decoded pixel is an opaque grey with an intensity in
  \<open>[0, 255]\<close>; every pixel from the decoded count up to \<open>width * height\<close> is black (0);
  and on a source of one repeated byte value the contrast range is 1 and every decoded
  pixel has intensity 0.
\<close>

theorem render_frame_safe:
  assumes fits: "width * height \<le> length dst"
  shows "\<exists>out. render_frame src dst width height mode = Some out \<and>
      length out = length dst \<and>
      drop (width * height) out = drop (width * height) dst \<and>
      decoded_pixels src width height mode \<le> width * height \<and>
      (\<forall>i < decoded_pixels src width height mode.
         \<exists>s. 0 \<le> s \<and> s \<le> 255 \<and> out ! i = argb (word_of_int s)) \<and>
      (\<forall>i. decoded_pixels src width height mode \<le> i \<and> i < width * height \<longrightarrow> out ! i = 0) \<and>
      (2 \<le> length src \<and> (\<forall>b \<in> set src. b = c) \<longrightarrow>
         render_range src width height mode = Some 1 \<and>
         (\<forall>i < decoded_pixels src width height mode. out ! i = argb 0))"
proof -
  define npix where "npix = width * height"
  define d where "d = replicate npix (0 :: 32 word) @ drop npix dst"
  have ms: "memset_black dst npix = Some d"
    using fits by (simp add: memset_black_def d_def npix_def)
  have ld: "length d = length dst" using fits by (simp add: d_def npix_def)
  have dd: "drop npix d = drop npix dst" by (simp add: d_def)
  have dz: "d ! i = 0" if "i < npix" for i using that by (simp add: d_def nth_append)
  show ?thesis
  proof (cases "length src < 2")
    case True
    then have "render_frame src dst width height mode = Some d"
      using ms by (simp add: render_frame_def Let_def npix_def[symmetric])
    moreover have "decoded_pixels src width height mode = 0"
      using True by (simp add: decoded_pixels_def)
    ultimately show ?thesis using ld dd dz True by (simp add: npix_def[symmetric])
  next
    case False
    then have two: "2 \<le> length src" by simp
    define limit where "limit = decode_limit mode (length src) npix"
    define g where "g = (\<lambda>i. the (mode_sample mode src i))"
    have dp: "decoded_pixels src width height mode = limit"
      using False by (simp add: decoded_pixels_def limit_def npix_def)
    have ln: "limit \<le> npix" unfolding limit_def by (rule decode_limit_le)
    have ll: "limit \<le> length d" using ln fits ld by (simp add: npix_def)
    have smp: "mode_sample mode src i = Some (g i) \<and> 0 \<le> g i \<and> g i \<le> mode_top mode"
      if "i < limit" for i
      using mode_sample_defined[OF two, of i mode npix] that by (auto simp: limit_def g_def)
    from decode_result[of limit "mode_sample mode src" g "mode_top mode" d, OF smp mode_top_nonneg ll]
    obtain mn mx where
      sc: "scan_minmax (mode_sample mode src) limit (mode_top mode) 0 = Some (mn, mx)" and
      dec: "decode (mode_sample mode src) limit (mode_top mode) d =
             Some (map (\<lambda>i. argb (clamp_u8 (((g i - mn) * 255) sdiv contrast_range mn mx)))
                     [0..<limit] @ drop limit d)" and
      bnd: "\<forall>i < limit. mn \<le> g i \<and> g i \<le> mx" and
      uni: "\<forall>k. (\<forall>i < limit. g i = k) \<longrightarrow> contrast_range mn mx = 1 \<and> (0 < limit \<longrightarrow> mn = k)"
      by blast
    define out where "out = map (\<lambda>i. argb (clamp_u8 (((g i - mn) * 255) sdiv contrast_range mn mx)))
                     [0..<limit] @ drop limit d"
    have rf: "render_frame src dst width height mode = Some out"
      using ms dec False by (simp add: render_frame_def Let_def npix_def[symmetric] limit_def out_def)
    have lo: "length out = length dst" using ll ld by (simp add: out_def)
    have dro: "drop npix out = drop npix dst"
      using ln dd by (simp add: out_def)
    have px: "out ! i = argb (clamp_u8 (((g i - mn) * 255) sdiv contrast_range mn mx))"
      if "i < limit" for i using that by (simp add: out_def nth_append)
    have pix: "\<exists>s. 0 \<le> s \<and> s \<le> 255 \<and> out ! i = argb (word_of_int s)" if i: "i < limit" for i
    proof -
      let ?s = "((g i - mn) * 255) sdiv contrast_range mn mx"
      from bnd i have "mn \<le> g i" "g i \<le> mx" by simp_all
      from stretch_bounds[OF this] have b: "0 \<le> ?s" "?s \<le> 255" by simp_all
      then have "out ! i = argb (word_of_int ?s)" using px[OF i] by (simp add: clamp_u8_id)
      with b show ?thesis by blast
    qed
    have black: "out ! i = 0" if "limit \<le> i" "i < npix" for i
    proof -
      have "out ! i = (drop limit d) ! (i - limit)" using that by (simp add: out_def nth_append)
      also have "\<dots> = d ! i" using that ll by simp
      finally show ?thesis using dz that by simp
    qed
    have unif: "render_range src width height mode = Some 1 \<and> (\<forall>i < limit. out ! i = argb 0)"
      if u: "\<forall>b \<in> set src. b = c"
    proof -
      from mode_sample_uniform[OF two u, of mode npix] obtain k where
        k: "\<forall>i < limit. mode_sample mode src i = Some k" by (auto simp: limit_def)
      then have gk: "\<forall>i < limit. g i = k" by (simp add: g_def)
      with uni have r1: "contrast_range mn mx = 1" and mk: "0 < limit \<longrightarrow> mn = k" by blast+
      then have rr: "render_range src width height mode = Some 1"
        using sc by (simp add: render_range_def npix_def[symmetric] limit_def[symmetric])
      have "out ! i = argb 0" if i: "i < limit" for i
      proof -
        have "g i = mn" using gk i mk by simp
        then show ?thesis using px[OF i] r1 by (simp add: clamp_u8_def)
      qed
      with rr show ?thesis by blast
    qed
    show ?thesis
      using rf lo dro ln pix black unif unfolding dp npix_def[symmetric] by blast
  qed
qed

text \<open>
  Five bytes of value 5 in 16-bit mode on a 2 by 3 image inside an 8-pixel buffer: two
  decoded pixels, four black ones, and the two pixels after the image untouched.
\<close>

theorem render_frame_safe_witness:
  "render_frame [5, 5, 5, 5, 5] (replicate 8 7) 2 3 MODE_16BIT_LE
     = Some [argb 0, argb 0, 0, 0, 0, 0, 7, 7] \<and>
   render_range [5, 5, 5, 5, 5] 2 3 MODE_16BIT_LE = Some 1 \<and>
   decoded_pixels [5, 5, 5, 5, 5] 2 3 MODE_16BIT_LE = 2"
proof -
  have u: "\<forall>b \<in> set [5, 5, 5, 5, 5 :: byte]. b = 5" by simp
  have l: "2 * 3 \<le> length (replicate 8 (7 :: 32 word))" by simp
  have dp: "decoded_pixels [5, 5, 5, 5, 5] 2 3 MODE_16BIT_LE = 2"
    by (simp add: decoded_pixels_def decode_limit_def)
  from render_frame_safe[OF l, of "[5, 5, 5, 5, 5]" MODE_16BIT_LE 5] u dp
  obtain out where o: "render_frame [5, 5, 5, 5, 5] (replicate 8 7) 2 3 MODE_16BIT_LE = Some out"
    "length out = 8" "drop 6 out = drop 6 (replicate 8 7)"
    "\<forall>i. 2 \<le> i \<and> i < 6 \<longrightarrow> out ! i = 0"
    "render_range [5, 5, 5, 5, 5] 2 3 MODE_16BIT_LE = Some 1"
    "\<forall>i < 2. out ! i = argb 0"
    by auto
  have "out = [argb 0, argb 0, 0, 0, 0, 0, 7, 7]"
  proof (rule nth_equalityI)
    show "length out = length [argb 0, argb 0, 0, 0, 0, 0, 7, 7 :: 32 word]" using o(2) by simp
  next
    fix i assume "i < length out"
    then have i: "i < 8" using o(2) by simp
    then consider "i < 2" | "2 \<le> i \<and> i < 6" | "i = 6" | "i = 7" by linarith
    then show "out ! i = [argb 0, argb 0, 0, 0, 0, 0, 7, 7] ! i"
    proof cases
      case 1
      then have "i = 0 \<or> i = 1" by auto
      then show ?thesis using o(6) by auto
    next
      case 2
      then have "i = 2 \<or> i = 3 \<or> i = 4 \<or> i = 5" by auto
      then show ?thesis using o(4) 2 by auto
    next
      case 3
      have "out ! 6 = drop 6 out ! 0" using o(2) by simp
      then show ?thesis using 3 o(3) by simp
    next
      case 4
      have "out ! 7 = drop 6 out ! 1" using o(2) by simp
      then show ?thesis using 4 o(3) by simp
    qed
  qed
  with o(1,5) dp show ?thesis by simp
qed


section \<open>Division in the classification and brightness path\<close>

text \<open>
  The brightness division has a zero divisor only on an empty frame, and an empty frame
  reaches it only through the accumulation block with a target that is not positive as an
  \<open>int\<close>. Without accumulation, or with a target below \<open>2^31\<close>, the division is safe.
\<close>

lemma filter_frame_divides:
  "fst (filter_frame st pix) = DivideByZero \<Longrightarrow> len pix \<le> 0"
  by (auto simp: filter_frame_def Let_def brightness_qn_def split: if_splits)

lemma strip_len: "len v - 10 \<le> len (fst (strip_meta_header v))"
  by (simp add: strip_meta_header_def)

lemma accumulate_block_divides:
  assumes "fst (accumulate_block negotiated_frame_size st pix) = DivideByZero"
  shows "sint negotiated_frame_size \<le> 0"
proof (rule ccontr)
  assume "\<not> sint negotiated_frame_size \<le> 0"
  then have pos: "0 < sint negotiated_frame_size" by simp
  from assms obtain st' where
    "fst (filter_frame (st'\<lparr>accum_off := 0\<rparr>) \<lparr>base = accum_buf st', start = 0, len = accum_off st'\<rparr>) = DivideByZero"
    "\<not> accum_off st' < sint negotiated_frame_size"
    unfolding accumulate_block_def Let_def by (auto split: if_splits)
  with filter_frame_divides[of "st'\<lparr>accum_off := 0\<rparr>" "\<lparr>base = accum_buf st', start = 0, len = accum_off st'\<rparr>"] pos
  show False by simp
qed

lemma no_division_by_zero:
  assumes "\<not> accumulate st \<or> 0 < sint negotiated_frame_size"
  shows "fst (process_frame negotiated_frame_size st fbuf got) \<noteq> DivideByZero"
proof
  assume dz: "fst (process_frame negotiated_frame_size st fbuf got) = DivideByZero"
  define pix where "pix = fst (strip_meta_header \<lparr>base = fbuf, start = 0, len = got\<rparr>)"
  define st1 where "st1 = st\<lparr>all_frames := all_frames st + 1\<rparr>"
  have pl: "got - 10 \<le> len pix"
    unfolding pix_def using strip_len[of "\<lparr>base = fbuf, start = 0, len = got\<rparr>"] by simp
  have g: "100 \<le> got"
  proof (rule ccontr)
    assume "\<not> 100 \<le> got"
    then have "got < 100" by simp
    then show False using dz by (cases "got \<le> 0") (simp_all add: process_frame_def)
  qed
  then have pf: "process_frame negotiated_frame_size st fbuf got =
           (if accumulate st \<and> negotiated_frame_size > 0
            then accumulate_block negotiated_frame_size st1 pix else filter_frame st1 pix)"
    by (simp add: process_frame_def Let_def pix_def st1_def)
  show False
  proof (cases "accumulate st \<and> negotiated_frame_size > 0")
    case True
    then have "process_frame negotiated_frame_size st fbuf got =
                 accumulate_block negotiated_frame_size st1 pix"
      unfolding pf by (rule if_P)
    then have "fst (accumulate_block negotiated_frame_size st1 pix) = DivideByZero"
      using dz by simp
    from accumulate_block_divides[OF this] True assms show False by simp
  next
    case False
    then have "process_frame negotiated_frame_size st fbuf got = filter_frame st1 pix"
      unfolding pf by (rule if_not_P)
    then have "fst (filter_frame st1 pix) = DivideByZero" using dz by simp
    from filter_frame_divides[OF this] pl g show False by simp
  qed
qed

text \<open>
  Claim C10 fails on the code. The device negotiates a frame size of \<open>0x80000000\<close>, the
  user turns accumulation on, and a frame of 100 zero bytes arrives while no size lock is
  set. The test \<open>negotiated_frame_size > 0\<close> passes (unsigned), but
  \<open>(int) negotiated_frame_size\<close> is negative: nothing is copied, \<open>accum_off = 0\<close> is not
  below the target, the empty accumulation becomes the frame, it passes the stripe and
  size filters, and \<open>qsum / qn\<close> is evaluated with \<open>qn = 0\<close>.
\<close>

theorem accumulate_division_by_zero:
  "fst (process_frame 0x80000000 (key_a initial_viewer) (replicate MAX_FRAME_SIZE 0) 100) = DivideByZero"
  by (simp add: process_frame_def accumulate_block_def filter_frame_def key_a_def initial_viewer_def
        strip_meta_header_def peek_def MAX_FRAME_SIZE_def is_interleaved_def neighbor_diff_def
        size_band_reject_def brightness_qn_def Let_def)

end
